theory Spec2Isabelle
  imports Complex_Main "HOL-Library.Log_Nat" "HOL-Library.Sublist"
begin

section \<open>Strings\<close>

text \<open>
  A Python \<open>str\<close> is a sequence of Unicode code points, and the classifier tells ASCII
  from non-ASCII text, so a string of the program is a list of code points. The bucket
  labels, the error messages and the keys of the counts dictionary are ASCII literals of
  the source and are kept as \<open>string\<close>.
\<close>

type_synonym ustr = "nat list"

definition ascii :: "string \<Rightarrow> ustr" where
  "ascii s = map of_char s"

text \<open>\<open>str.isascii\<close>: every code point is in U+0000..U+007F (true of the empty string).\<close>

definition isascii :: "ustr \<Rightarrow> bool" where
  "isascii s = list_all (\<lambda>c. c < 128) s"

text \<open>\<open>s.endswith(t)\<close>.\<close>

definition endswith :: "ustr \<Rightarrow> ustr \<Rightarrow> bool" where
  "endswith s t = (length t \<le> length s \<and> drop (length s - length t) s = t)"

section \<open>Bucket definitions\<close>

definition COLUMN :: ustr where
  "COLUMN = ascii ''Domain Name''"

definition BUCKETS :: "string list" where
  "BUCKETS = [''IDN.IDN'', ''IDN.XN--FIQS8S'', ''ASCII.XN--FIQS8S'',
              ''ASCII.CN'', ''IDN.CN'', ''.COM.CN'', ''.NET.CN'', ''.ORG.CN'']"

definition ALL_BUCKETS :: "string list" where
  "ALL_BUCKETS = BUCKETS @ [''UNCLASSIFIED'']"

text \<open>
  \<open>PUNY = re.compile(r"^xn--", re.I)\<close> and \<open>PUNY.match(label)\<close>: the label starts with
  \<open>x\<close> or \<open>X\<close> (120, 88), then \<open>n\<close> or \<open>N\<close> (110, 78), then two hyphens (45). Under
  \<open>re.I\<close> no code point other than these matches the letters \<open>x\<close> and \<open>n\<close>.
\<close>

fun PUNY_match :: "ustr \<Rightarrow> bool" where
  "PUNY_match (a # b # c # d # rest) =
     ((a = 120 \<or> a = 88) \<and> (b = 110 \<or> b = 78) \<and> c = 45 \<and> d = 45)"
| "PUNY_match _ = False"

definition PUNY_TLDS :: "ustr set" where
  "PUNY_TLDS = {ascii ''xn--fiqs8s'', ascii ''xn--fiqz9s''}"

definition GENERIC_SLD :: "ustr \<rightharpoonup> string" where
  "GENERIC_SLD = map_of [(ascii ''com.cn'', ''.COM.CN''),
                         (ascii ''net.cn'', ''.NET.CN''),
                         (ascii ''org.cn'', ''.ORG.CN'')]"

definition is_idn :: "ustr \<Rightarrow> bool" where
  "is_idn label = ((\<not> isascii label) \<or> PUNY_match label)"

section \<open>The libraries the classifier calls\<close>

text \<open>
  \<open>classify\<close> calls three functions that are not code of the repository: \<open>str.lower\<close>
  (the interpreter's Unicode case table), \<open>tldextract.extract\<close> (a public-suffix-list
  lookup) and \<open>idna.encode\<close>. They are parameters of the model. \<open>tldextract.extract\<close>
  returns a value for every string. \<open>idna.encode\<close> either returns the ASCII-compatible
  form (bytes, decoded back to a string by \<open>.decode()\<close>) or raises \<open>idna.IDNAError\<close>, the
  base class of every error of that library.
\<close>

record ExtractResult =
  subdomain :: ustr
  domain :: ustr
  suffix :: ustr

datatype idna_error = IDNAError

record pylibs =
  str_lower :: "ustr \<Rightarrow> ustr"
  tld_extract :: "ustr \<Rightarrow> ExtractResult"
  idna_encode :: "ustr \<Rightarrow> idna_error + ustr"

section \<open>The classifier\<close>

text \<open>
  The four rules in the order of the source. The \<open>try\<close> of rule 4 is the case split on
  the result of \<open>idna.encode\<close>: the \<open>except idna.IDNAError: pass\<close> branch falls through to
  the final \<open>return "UNCLASSIFIED"\<close>.
\<close>

definition classify :: "pylibs \<Rightarrow> ustr \<Rightarrow> string" where
  "classify L dname =
     (let ext = tld_extract L (str_lower L dname);
          sld = domain ext;
          sfx = suffix ext
      in case GENERIC_SLD sfx of
           Some bucket \<Rightarrow> bucket
         | None \<Rightarrow>
             if sfx \<in> PUNY_TLDS
             then (if is_idn sld then ''IDN.XN--FIQS8S'' else ''ASCII.XN--FIQS8S'')
             else if sfx = ascii ''cn'' \<or> endswith sfx (ascii ''.cn'')
             then (if is_idn sld then ''IDN.CN'' else ''ASCII.CN'')
             else (case idna_encode L dname of
                     Inl IDNAError \<Rightarrow> ''UNCLASSIFIED''
                   | Inr ace \<Rightarrow>
                       (let ext2 = tld_extract L ace
                        in if suffix ext2 \<in> PUNY_TLDS \<and> is_idn (domain ext2)
                           then ''IDN.IDN'' else ''UNCLASSIFIED'')))"

text \<open>The condition of each rule, as the source tests it, for stating which rule fires.\<close>

definition rule1_fires :: "pylibs \<Rightarrow> ustr \<Rightarrow> bool" where
  "rule1_fires L dname = (suffix (tld_extract L (str_lower L dname)) \<in> dom GENERIC_SLD)"

definition rule2_fires :: "pylibs \<Rightarrow> ustr \<Rightarrow> bool" where
  "rule2_fires L dname = (suffix (tld_extract L (str_lower L dname)) \<in> PUNY_TLDS)"

definition rule3_fires :: "pylibs \<Rightarrow> ustr \<Rightarrow> bool" where
  "rule3_fires L dname =
     (let sfx = suffix (tld_extract L (str_lower L dname))
      in sfx = ascii ''cn'' \<or> endswith sfx (ascii ''.cn''))"

definition rule4_fires :: "pylibs \<Rightarrow> ustr \<Rightarrow> bool" where
  "rule4_fires L dname =
     (case idna_encode L dname of
        Inl e \<Rightarrow> False
      | Inr ace \<Rightarrow> suffix (tld_extract L ace) \<in> PUNY_TLDS \<and> is_idn (domain (tld_extract L ace)))"

section \<open>The script-detection predicate as the specification words it\<close>

text \<open>
  Printable ASCII is U+0020..U+007E. The prefix test compares the first four code points
  with \<open>xn--\<close> after mapping \<open>A\<close>..\<open>Z\<close> to \<open>a\<close>..\<open>z\<close>.
\<close>

definition printable_ascii :: "nat \<Rightarrow> bool" where
  "printable_ascii c = (32 \<le> c \<and> c \<le> 126)"

definition ascii_lower :: "nat \<Rightarrow> nat" where
  "ascii_lower c = (if 65 \<le> c \<and> c \<le> 90 then c + 32 else c)"

definition starts_with_xn :: "ustr \<Rightarrow> bool" where
  "starts_with_xn label = (map ascii_lower (take 4 label) = ascii ''xn--'')"

definition is_internationalized :: "ustr \<Rightarrow> bool" where
  "is_internationalized label =
     (list_ex (\<lambda>c. \<not> printable_ascii c) label \<or> starts_with_xn label)"

section \<open>A sample of the libraries' behaviour\<close>

text \<open>
  For evaluating the classifier on concrete domains: the values the three library
  functions return on the strings listed (idna 3.7, tldextract with the public suffix
  list, CPython's \<open>str.lower\<close>). \<open>sample_lower\<close> agrees with \<open>str.lower\<close> on ASCII, on
  Latin-1 and on caseless scripts such as Han. On a string outside the tables
  \<open>sample_extract\<close> finds no suffix and \<open>sample_idna\<close> raises.

  The strings: \<open>example.com.cn\<close>, \<open>example.xj.cn\<close>, \<open>notadomain\<close>,
  U+4F8B U+5B50 \<open>.\<close> U+4E2D U+56FD (both labels in Han script),
  U+00E4 \<open>.\<close> U+4E2D U+56FD (a lower-case a-umlaut under the Han top-level domain) and
  U+00C4 \<open>.\<close> U+4E2D U+56FD (the same with the capital letter, which IDNA 2008 forbids:
  \<open>idna.encode\<close> raises \<open>InvalidCodepoint\<close>, a subclass of \<open>IDNAError\<close>).
\<close>

definition sample_lower :: "ustr \<Rightarrow> ustr" where
  "sample_lower s =
     map (\<lambda>c. if (65 \<le> c \<and> c \<le> 90) \<or> (192 \<le> c \<and> c \<le> 222 \<and> c \<noteq> 215) then c + 32 else c) s"

definition han_cn :: ustr where
  "han_cn = [0x4E2D, 0x56FD]"

definition sample_extract_table :: "(ustr \<times> ExtractResult) list" where
  "sample_extract_table =
     [(ascii ''example.com.cn'',
         \<lparr>subdomain = [], domain = ascii ''example'', suffix = ascii ''com.cn''\<rparr>),
      (ascii ''example.xj.cn'',
         \<lparr>subdomain = [], domain = ascii ''example'', suffix = ascii ''xj.cn''\<rparr>),
      ([0x4F8B, 0x5B50, 0x2E] @ han_cn,
         \<lparr>subdomain = [], domain = [0x4F8B, 0x5B50], suffix = han_cn\<rparr>),
      ([0xE4, 0x2E] @ han_cn,
         \<lparr>subdomain = [], domain = [0xE4], suffix = han_cn\<rparr>),
      (ascii ''xn--fsqu00a.xn--fiqs8s'',
         \<lparr>subdomain = [], domain = ascii ''xn--fsqu00a'', suffix = ascii ''xn--fiqs8s''\<rparr>),
      (ascii ''xn--4ca.xn--fiqs8s'',
         \<lparr>subdomain = [], domain = ascii ''xn--4ca'', suffix = ascii ''xn--fiqs8s''\<rparr>)]"

definition sample_extract :: "ustr \<Rightarrow> ExtractResult" where
  "sample_extract s =
     (case map_of sample_extract_table s of
        Some r \<Rightarrow> r
      | None \<Rightarrow> \<lparr>subdomain = [], domain = s, suffix = []\<rparr>)"

definition sample_idna_table :: "(ustr \<times> ustr) list" where
  "sample_idna_table =
     [(ascii ''notadomain'', ascii ''notadomain''),
      ([0x4F8B, 0x5B50, 0x2E] @ han_cn, ascii ''xn--fsqu00a.xn--fiqs8s''),
      ([0xE4, 0x2E] @ han_cn, ascii ''xn--4ca.xn--fiqs8s'')]"

definition sample_idna :: "ustr \<Rightarrow> idna_error + ustr" where
  "sample_idna s =
     (case map_of sample_idna_table s of
        Some ace \<Rightarrow> Inr ace
      | None \<Rightarrow> Inl IDNAError)"

definition sample_libs :: pylibs where
  "sample_libs = \<lparr>str_lower = sample_lower, tld_extract = sample_extract,
                   idna_encode = sample_idna\<rparr>"

section \<open>Floating-point arithmetic of the progress percentage\<close>

text \<open>
  \<open>int(i / max(total, 1) * 100)\<close> is computed in IEEE 754 binary64: \<open>/\<close> on two
  integers returns the correctly rounded quotient, \<open>*\<close> the correctly rounded product,
  and \<open>int\<close> truncates. The result can differ from the exact quotient: for \<open>i = 1450\<close>
  and \<open>total = 5000\<close> the program computes 28, not 29. A double is modelled by the
  rational it denotes and every operation rounds the exact result to the nearest double,
  ties to even: 53 significant bits in the binade of the value, with the fixed spacing
  \<open>2 powi (- 1074)\<close> below \<open>2 powi (- 1022)\<close>.
\<close>

definition rne :: "rat \<Rightarrow> int" where
  "rne q = (let f = \<lfloor>q\<rfloor>; r = q - of_int f
            in if r < 1/2 then f else if 1/2 < r then f + 1
               else if even f then f else f + 1)"

text \<open>For \<open>x > 0\<close>, the exponent \<open>e\<close> with \<open>2 powi e \<le> x < 2 powi (e + 1)\<close>.\<close>

definition binade :: "rat \<Rightarrow> int" where
  "binade x = (let (p, q) = quotient_of x; d = bitlen p - bitlen q
               in if 2 powi d \<le> x then d else d - 1)"

definition ulp :: "rat \<Rightarrow> rat" where
  "ulp x = 2 powi (max (binade x) (- 1022) - 52)"

definition round_double :: "rat \<Rightarrow> rat" where
  "round_double x =
     (if x = 0 then 0
      else if 0 < x then of_int (rne (x / ulp x)) * ulp x
      else - (of_int (rne (- x / ulp (- x))) * ulp (- x)))"

text \<open>The exponent that fixes the spacing of the doubles around \<open>x\<close>.\<close>

definition expo :: "rat \<Rightarrow> int" where
  "expo x = max (binade x) (- 1022)"

section \<open>Exceptions\<close>

text \<open>
  The exceptions that can reach the \<open>except Exception\<close> of \<open>Worker.run\<close>: the two that
  \<open>/\<close> on integers raises, the \<open>ValueError\<close> the worker raises itself, and whatever
  pandas and openpyxl raise while reading or writing, kept with its message.
  \<open>str_exn\<close> is \<open>str(exc)\<close>.
\<close>

datatype exn = ZeroDivisionError | OverflowError | ValueError string | LibraryError string

fun str_exn :: "exn \<Rightarrow> string" where
  "str_exn ZeroDivisionError = ''division by zero''"
| "str_exn OverflowError = ''integer division result too large for a float''"
| "str_exn (ValueError msg) = msg"
| "str_exn (LibraryError msg) = msg"

text \<open>
  \<open>a / b\<close> on integers. \<open>x * y\<close> on doubles, for a product below \<open>2 ^ 1024\<close> (the one
  computed here is at most 100). \<open>int(x)\<close>.
\<close>

definition truediv :: "int \<Rightarrow> int \<Rightarrow> exn + rat" where
  "truediv a b =
     (if b = 0 then Inl ZeroDivisionError
      else if 2 ^ 1024 \<le> \<bar>round_double (of_int a / of_int b)\<bar> then Inl OverflowError
      else Inr (round_double (of_int a / of_int b)))"

definition fmul :: "rat \<Rightarrow> rat \<Rightarrow> rat" where
  "fmul x y = round_double (x * y)"

definition trunc :: "rat \<Rightarrow> int" where
  "trunc x = (if 0 \<le> x then \<lfloor>x\<rfloor> else \<lceil>x\<rceil>)"

text \<open>\<open>int(i / max(total, 1) * 100)\<close>.\<close>

definition percent :: "nat \<Rightarrow> nat \<Rightarrow> exn + int" where
  "percent i tot =
     (case truediv (int i) (int (max tot 1)) of
        Inl e \<Rightarrow> Inl e
      | Inr q \<Rightarrow> Inr (trunc (fmul q 100)))"

text \<open>
  The value of the percentage when the quotient is representable, which is the case at
  every checkpoint of the loop (\<open>i < total\<close>).
\<close>

definition pct :: "nat \<Rightarrow> nat \<Rightarrow> int" where
  "pct i tot = trunc (fmul (round_double (of_int (int i) / of_int (int (max tot 1)))) 100)"

section \<open>Tables, signals and the world\<close>

text \<open>
  A DataFrame as read from the file, with the default index \<open>0..n-1\<close>: its column names
  and its rows, each row giving the text of its cells by column name (what
  \<open>astype(str)\<close> renders; a cell the file leaves empty reads as \<open>nan\<close>). After the
  classification loop every row carries the value of its \<open>bucket\<close> column.
\<close>

type_synonym row = "(ustr \<times> ustr) list"

record dataframe =
  columns :: "ustr list"
  rows :: "row list"

definition cell :: "row \<Rightarrow> ustr \<Rightarrow> ustr" where
  "cell r c = (case map_of r c of Some v \<Rightarrow> v | None \<Rightarrow> ascii ''nan'')"

type_synonym labelled_row = "row \<times> string"

type_synonym sheet = "string \<times> labelled_row list"

text \<open>\<open>str.strip()\<close>: removes the leading and trailing characters for which \<open>str.isspace\<close> holds.\<close>

definition py_isspace :: "nat \<Rightarrow> bool" where
  "py_isspace c =
     ((9 \<le> c \<and> c \<le> 13) \<or> (28 \<le> c \<and> c \<le> 32) \<or> c = 0x85 \<or> c = 0xA0 \<or> c = 0x1680
      \<or> (0x2000 \<le> c \<and> c \<le> 0x200A) \<or> c = 0x2028 \<or> c = 0x2029 \<or> c = 0x202F
      \<or> c = 0x205F \<or> c = 0x3000)"

definition strip :: "ustr \<Rightarrow> ustr" where
  "strip s = rev (dropWhile py_isspace (rev (dropWhile py_isspace s)))"

text \<open>
  The two Qt signals of the worker: \<open>progress(int)\<close> and
  \<open>finished(outfile, error, counts)\<close>. The counts dictionary maps a key to its count.
\<close>

type_synonym counts = "string \<rightharpoonup> nat"

datatype signal = Progress int | Finished ustr string counts

text \<open>
  What the run changes: the signals emitted so far, in order, and the workbooks on disk
  by path. What a writer that fails leaves on disk is not modelled.
\<close>

record world =
  emitted :: "signal list"
  files :: "ustr \<rightharpoonup> sheet list"

text \<open>
  The environment of a run: \<open>Path.suffix\<close>, what \<open>pd.read_csv\<close> and \<open>pd.read_excel\<close>
  return or raise on a path, and whether saving a workbook to a path raises.
\<close>

record env =
  path_suffix :: "ustr \<Rightarrow> ustr"
  read_csv :: "ustr \<Rightarrow> exn + dataframe"
  read_excel :: "ustr \<Rightarrow> exn + dataframe"
  excel_save :: "ustr \<Rightarrow> sheet list \<Rightarrow> exn option"

definition emit :: "signal \<Rightarrow> world \<Rightarrow> world" where
  "emit s w = w\<lparr>emitted := emitted w @ [s]\<rparr>"

section \<open>The report writer\<close>

text \<open>
  The loop of \<open>multi_sheet_write\<close> over the buckets, with the sheets written so far;
  \<open>bucket[:31]\<close> is \<open>take 31\<close>. The workbook is saved when the \<open>with\<close> block ends.
\<close>

fun write_sheets :: "labelled_row list \<Rightarrow> string list \<Rightarrow> sheet list \<Rightarrow> sheet list" where
  "write_sheets df [] wb = wb"
| "write_sheets df (bucket # rest) wb =
     (let sub = filter (\<lambda>r. snd r = bucket) df
      in if sub \<noteq> [] then write_sheets df rest (wb @ [(take 31 bucket, sub)])
         else write_sheets df rest wb)"

definition multi_sheet_write :: "env \<Rightarrow> labelled_row list \<Rightarrow> ustr \<Rightarrow> world \<Rightarrow> exn + world" where
  "multi_sheet_write E df dest w =
     (let wb = write_sheets df ALL_BUCKETS []
      in case excel_save E dest wb of
           Some e \<Rightarrow> Inl e
         | None \<Rightarrow> Inr (w\<lparr>files := (files w)(dest \<mapsto> wb)\<rparr>))"

section \<open>The background worker\<close>

definition missing_column_message :: string where
  "missing_column_message = ''Input must contain a 'Domain Name' column.''"

text \<open>
  The classification loop: \<open>i\<close> is the index \<open>enumerate\<close> gives, the state is the
  \<open>bucket\<close> column and the world. An exception leaves the loop with the signals already
  emitted.
\<close>

fun loop :: "pylibs \<Rightarrow> nat \<Rightarrow> nat \<Rightarrow> ustr list \<Rightarrow> string list \<times> world
               \<Rightarrow> exn option \<times> string list \<times> world" where
  "loop L tot i [] (col, w) = (None, col, w)"
| "loop L tot i (dname # rest) (col, w) =
     (let col' = col[i := classify L dname]
      in if i mod 50 = 0
         then (case percent i tot of
                 Inl e \<Rightarrow> (Some e, col', w)
               | Inr p \<Rightarrow> loop L tot (Suc i) rest (col', emit (Progress p) w))
         else loop L tot (Suc i) rest (col', w))"

text \<open>\<open>df["bucket"].value_counts().to_dict()\<close>: the values that occur, each with its count.\<close>

definition value_counts :: "string list \<Rightarrow> counts" where
  "value_counts col = (\<lambda>b. if count_list col b = 0 then None else Some (count_list col b))"

definition read_input :: "pylibs \<Rightarrow> env \<Rightarrow> ustr \<Rightarrow> exn + dataframe" where
  "read_input L E infile =
     (if str_lower L (path_suffix E infile) = ascii ''.csv''
      then read_csv E infile else read_excel E infile)"

text \<open>
  \<open>Worker.run\<close>. Every exception ends in \<open>finished.emit(outfile, str(exc), {})\<close>.
\<close>

definition run :: "pylibs \<Rightarrow> env \<Rightarrow> ustr \<Rightarrow> ustr \<Rightarrow> world \<Rightarrow> world" where
  "run L E infile outfile w =
     (case read_input L E infile of
        Inl e \<Rightarrow> emit (Finished outfile (str_exn e) Map.empty) w
      | Inr df \<Rightarrow>
          if COLUMN \<notin> set (columns df)
          then emit (Finished outfile (str_exn (ValueError missing_column_message)) Map.empty) w
          else
            (let tot = length (rows df);
                 col0 = replicate tot [];
                 dnames = map (\<lambda>r. strip (cell r COLUMN)) (rows df)
             in case loop L tot 0 dnames (col0, w) of
                  (Some e, col, w1) \<Rightarrow> emit (Finished outfile (str_exn e) Map.empty) w1
                | (None, col, w1) \<Rightarrow>
                    (let w2 = emit (Progress 100) w1
                     in case multi_sheet_write E (zip (rows df) col) outfile w2 of
                          Inl e \<Rightarrow> emit (Finished outfile (str_exn e) Map.empty) w2
                        | Inr w3 \<Rightarrow>
                            emit (Finished outfile []
                                    ((value_counts col)(''TOTAL'' \<mapsto> tot))) w3)))"

text \<open>The values of the \<open>progress\<close> signals in a list of signals, in order.\<close>

fun progress_values :: "signal list \<Rightarrow> int list" where
  "progress_values [] = []"
| "progress_values (Progress p # ss) = p # progress_values ss"
| "progress_values (Finished out err cnt # ss) = progress_values ss"

fun is_finished :: "signal \<Rightarrow> bool" where
  "is_finished (Finished out err cnt) = True"
| "is_finished (Progress p) = False"

section \<open>The progress sequence as the specification words it\<close>

text \<open>
  Monotonically non-decreasing, every value in 0 to 100, and the last value is 100 (so
  there is a last value).
\<close>

definition progress_sequence_ok :: "int list \<Rightarrow> bool" where
  "progress_sequence_ok ps =
     (sorted ps \<and> list_all (\<lambda>p. 0 \<le> p \<and> p \<le> 100) ps \<and> ps \<noteq> [] \<and> last ps = 100)"

section \<open>A sample of the environment\<close>

text \<open>
  For evaluating a run: three CSV files (a table of four domains, a table whose only
  column is \<open>Name\<close>, and a table with the right column and no row), no Excel input, and
  a writer that, like openpyxl, refuses to save a workbook that has no sheet. The
  suffix of each of these file names is its last four characters.
\<close>

definition table_of_four :: dataframe where
  "table_of_four =
     \<lparr>columns = [COLUMN],
      rows = [[(COLUMN, ascii ''example.com.cn'')],
              [(COLUMN, ascii '' notadomain'')],
              [(COLUMN, ascii ''EXAMPLE.com.cn '')],
              [(COLUMN, ascii ''example.xj.cn'')]]\<rparr>"

definition table_without_column :: dataframe where
  "table_without_column =
     \<lparr>columns = [ascii ''Name''], rows = [[(ascii ''Name'', ascii ''example.com.cn'')]]\<rparr>"

definition table_empty :: dataframe where
  "table_empty = \<lparr>columns = [COLUMN], rows = []\<rparr>"

definition sample_files :: "(ustr \<times> dataframe) list" where
  "sample_files = [(ascii ''domains.csv'', table_of_four),
                   (ascii ''names.csv'', table_without_column),
                   (ascii ''empty.csv'', table_empty)]"

definition sample_read :: "ustr \<Rightarrow> exn + dataframe" where
  "sample_read p =
     (case map_of sample_files p of
        Some df \<Rightarrow> Inr df
      | None \<Rightarrow> Inl (LibraryError ''No such file or directory''))"

definition sample_save :: "ustr \<Rightarrow> sheet list \<Rightarrow> exn option" where
  "sample_save dest wb =
     (if wb = [] then Some (LibraryError ''At least one sheet must be visible'') else None)"

definition sample_env :: env where
  "sample_env = \<lparr>path_suffix = (\<lambda>p. drop (length p - 4) p),
                  read_csv = sample_read,
                  read_excel = (\<lambda>p. Inl (LibraryError ''File is not a zip file'')),
                  excel_save = sample_save\<rparr>"

definition world0 :: world where
  "world0 = \<lparr>emitted = [], files = Map.empty\<rparr>"

text \<open>The labels of the four rows of \<open>table_of_four\<close>.\<close>

definition labels_of_four :: "string list" where
  "labels_of_four = [''.COM.CN'', ''UNCLASSIFIED'', ''.COM.CN'', ''ASCII.CN'']"

section \<open>Properties of the classifier\<close>

lemma ascii_simps:
  "ascii [] = []"
  "ascii (c # s) = of_char c # ascii s"
  by (simp_all add: ascii_def)

lemma set_ALL_BUCKETS:
  "set ALL_BUCKETS = {''IDN.IDN'', ''IDN.XN--FIQS8S'', ''ASCII.XN--FIQS8S'', ''ASCII.CN'',
                      ''IDN.CN'', ''.COM.CN'', ''.NET.CN'', ''.ORG.CN'', ''UNCLASSIFIED''}"
  by (auto simp: ALL_BUCKETS_def BUCKETS_def)

lemma GENERIC_SLD_range:
  "GENERIC_SLD s = Some b \<Longrightarrow> b \<in> {''.COM.CN'', ''.NET.CN'', ''.ORG.CN''}"
  by (auto simp: GENERIC_SLD_def split: if_splits)

lemma classify_cases:
  "classify L d \<in> {''IDN.IDN'', ''IDN.XN--FIQS8S'', ''ASCII.XN--FIQS8S'', ''ASCII.CN'',
                    ''IDN.CN'', ''.COM.CN'', ''.NET.CN'', ''.ORG.CN'', ''UNCLASSIFIED''}"
proof (cases "GENERIC_SLD (suffix (tld_extract L (str_lower L d)))")
  case None
  then show ?thesis
    by (simp add: classify_def Let_def split: sum.split idna_error.split)
next
  case (Some b)
  with GENERIC_SLD_range [OF Some] show ?thesis
    by (auto simp: classify_def Let_def)
qed

lemma classify_no_rule:
  assumes "\<not> rule1_fires L d" "\<not> rule2_fires L d" "\<not> rule3_fires L d" "\<not> rule4_fires L d"
  shows "classify L d = ''UNCLASSIFIED''"
proof -
  from assms(1) have g: "GENERIC_SLD (suffix (tld_extract L (str_lower L d))) = None"
    by (auto simp: rule1_fires_def)
  show ?thesis
  proof (cases "idna_encode L d")
    case (Inl e)
    with g assms(2,3) show ?thesis
      by (simp add: classify_def Let_def rule2_fires_def rule3_fires_def split: idna_error.split)
  next
    case (Inr ace)
    with g assms(2,3,4) show ?thesis
      by (simp add: classify_def Let_def rule2_fires_def rule3_fires_def rule4_fires_def)
  qed
qed

lemmas sample_defs = sample_libs_def sample_lower_def sample_extract_def sample_extract_table_def
  sample_idna_def sample_idna_table_def han_cn_def ascii_simps

lemmas classify_eval = classify_def GENERIC_SLD_def PUNY_TLDS_def endswith_def is_idn_def
  isascii_def

lemma PUNY_match_iff: "PUNY_match label = starts_with_xn label"
proof (cases label)
  case Nil
  then show ?thesis by (simp add: starts_with_xn_def ascii_simps)
next
  case (Cons a l1)
  show ?thesis
  proof (cases l1)
    case Nil
    with Cons show ?thesis by (simp add: starts_with_xn_def ascii_simps)
  next
    case (Cons b l2)
    note c2 = this
    show ?thesis
    proof (cases l2)
      case Nil
      with \<open>label = a # l1\<close> c2 show ?thesis by (simp add: starts_with_xn_def ascii_simps)
    next
      case (Cons c l3)
      note c3 = this
      show ?thesis
      proof (cases l3)
        case Nil
        with \<open>label = a # l1\<close> c2 c3 show ?thesis by (simp add: starts_with_xn_def ascii_simps)
      next
        case (Cons d l4)
        with \<open>label = a # l1\<close> c2 c3 show ?thesis
          by (auto simp: starts_with_xn_def ascii_simps ascii_lower_def)
      qed
    qed
  qed
qed

lemma isascii_iff: "isascii s = (\<forall>c\<in>set s. c < 128)"
  by (simp add: isascii_def list_all_iff)

subsection \<open>C1: one label of the fixed set\<close>

text \<open>
  Claim C1. For every input string, and whatever the three libraries return, \<open>classify\<close>
  returns a value (it is a total function: the only exception raised on the way is the
  one rule 4 catches), that value is one of the nine labels of \<open>ALL_BUCKETS\<close>, and it is
  \<open>UNCLASSIFIED\<close> when none of the four rules fires.
\<close>

theorem classify_in_bucket_set:
  "classify L d \<in> set ALL_BUCKETS \<and>
   set ALL_BUCKETS = {''IDN.IDN'', ''IDN.XN--FIQS8S'', ''ASCII.XN--FIQS8S'', ''ASCII.CN'',
                      ''IDN.CN'', ''.COM.CN'', ''.NET.CN'', ''.ORG.CN'', ''UNCLASSIFIED''} \<and>
   (\<not> rule1_fires L d \<and> \<not> rule2_fires L d \<and> \<not> rule3_fires L d \<and> \<not> rule4_fires L d
      \<longrightarrow> classify L d = ''UNCLASSIFIED'')"
  using classify_cases [of L d] classify_no_rule [of L d] by (simp add: set_ALL_BUCKETS)

text \<open>The theorem at \<open>notadomain\<close>, where no rule fires.\<close>

theorem classify_in_bucket_set_witness:
  "\<not> rule1_fires sample_libs (ascii ''notadomain'') \<and>
   \<not> rule2_fires sample_libs (ascii ''notadomain'') \<and>
   \<not> rule3_fires sample_libs (ascii ''notadomain'') \<and>
   \<not> rule4_fires sample_libs (ascii ''notadomain'') \<and>
   classify sample_libs (ascii ''notadomain'') = ''UNCLASSIFIED'' \<and>
   classify sample_libs (ascii ''notadomain'') \<in> set ALL_BUCKETS"
proof -
  have r: "\<not> rule1_fires sample_libs (ascii ''notadomain'')"
          "\<not> rule2_fires sample_libs (ascii ''notadomain'')"
          "\<not> rule3_fires sample_libs (ascii ''notadomain'')"
          "\<not> rule4_fires sample_libs (ascii ''notadomain'')"
    by (simp_all add: rule1_fires_def rule2_fires_def rule3_fires_def rule4_fires_def
          sample_defs classify_eval dom_def)
  with classify_in_bucket_set [of sample_libs "ascii ''notadomain''"] show ?thesis by blast
qed

subsection \<open>C2: the script-detection predicate\<close>

text \<open>
  Claim C2 as stated fails on an ASCII control character: the label made of U+007F alone
  (ASCII, but not printable) is internationalized in the specification's words and not for
  \<open>is_idn\<close>, which tests \<open>str.isascii\<close>.
\<close>

theorem is_idn_printable_counterexample:
  "\<not> is_idn [127] \<and> is_internationalized [127]"
  by (simp add: is_idn_def isascii_def is_internationalized_def printable_ascii_def)

text \<open>
  Claim C2, amended. \<open>is_idn label\<close> is true if and only if the label contains a code
  point above U+007F (a non-ASCII character), or its first four characters are \<open>xn--\<close>
  compared case-insensitively; for every other label it is false.
\<close>

theorem is_idn_iff_non_ascii_or_xn:
  "is_idn label = ((\<exists>c\<in>set label. 127 < c) \<or> starts_with_xn label)"
proof -
  have "\<And>c::nat. (\<not> c < 128) = (127 < c)"
    by arith
  then have "(\<not> (\<forall>c\<in>set label. c < 128)) = (\<exists>c\<in>set label. 127 < c)"
    by simp
  then show ?thesis
    by (simp add: is_idn_def isascii_iff PUNY_match_iff)
qed

text \<open>
  The theorem at a Han label, at an upper-case \<open>XN--\<close> label, at a plain ASCII label and
  at a label of control characters.
\<close>

theorem is_idn_iff_non_ascii_or_xn_witness:
  "is_idn [0x4F8B, 0x5B50] \<and> is_idn (ascii ''XN--4ca'') \<and> \<not> is_idn (ascii ''example'')
   \<and> \<not> is_idn [9, 127]"
  using is_idn_iff_non_ascii_or_xn [of "[0x4F8B, 0x5B50]"]
        is_idn_iff_non_ascii_or_xn [of "ascii ''XN--4ca''"]
        is_idn_iff_non_ascii_or_xn [of "ascii ''example''"]
        is_idn_iff_non_ascii_or_xn [of "[9, 127]"]
  by (simp add: starts_with_xn_def ascii_simps ascii_lower_def)

subsection \<open>C4: the generic rule comes first\<close>

lemma GENERIC_SLD_dom_cn:
  "GENERIC_SLD s = Some b \<Longrightarrow> endswith s (ascii ''.cn'')"
  by (auto simp: GENERIC_SLD_def endswith_def ascii_simps split: if_splits)

text \<open>
  Claim C4. When the suffix extracted from the lower-cased domain is a key of
  \<open>GENERIC_SLD\<close>, the suffix also ends with \<open>.cn\<close>, so rules 1 and 3 both hold of it; the
  result is the bucket \<open>GENERIC_SLD\<close> maps the suffix to, and it is neither of the two
  country-code buckets.
\<close>

theorem generic_rule_wins:
  assumes "GENERIC_SLD (suffix (tld_extract L (str_lower L d))) = Some b"
  shows "rule1_fires L d \<and> rule3_fires L d \<and> classify L d = b \<and>
         b \<noteq> ''IDN.CN'' \<and> b \<noteq> ''ASCII.CN''"
  using assms GENERIC_SLD_range [OF assms] GENERIC_SLD_dom_cn [OF assms]
  by (auto simp: classify_def rule1_fires_def rule3_fires_def Let_def)

text \<open>The theorem at \<open>EXAMPLE.com.cn\<close>.\<close>

theorem generic_rule_wins_witness:
  "GENERIC_SLD (suffix (tld_extract sample_libs (str_lower sample_libs (ascii ''EXAMPLE.com.cn''))))
     = Some ''.COM.CN'' \<and>
   rule3_fires sample_libs (ascii ''EXAMPLE.com.cn'') \<and>
   classify sample_libs (ascii ''EXAMPLE.com.cn'') = ''.COM.CN''"
proof -
  have h: "GENERIC_SLD (suffix (tld_extract sample_libs
             (str_lower sample_libs (ascii ''EXAMPLE.com.cn'')))) = Some ''.COM.CN''"
    by (simp add: sample_defs GENERIC_SLD_def)
  from generic_rule_wins [OF h] h show ?thesis by simp
qed

subsection \<open>C5: an encoding failure is not an error\<close>

text \<open>
  Claim C5. When rules 1 to 3 do not fire and \<open>idna.encode\<close> raises, \<open>classify\<close> returns
  \<open>UNCLASSIFIED\<close>: the exception is caught inside and the caller receives a label.
\<close>

theorem encoding_failure_is_unclassified:
  assumes "\<not> rule1_fires L d" "\<not> rule2_fires L d" "\<not> rule3_fires L d"
    and "idna_encode L d = Inl e"
  shows "classify L d = ''UNCLASSIFIED''"
proof -
  from assms(4) have "\<not> rule4_fires L d" by (simp add: rule4_fires_def)
  with assms(1-3) show ?thesis by (rule classify_no_rule)
qed

text \<open>The theorem at the empty string, which \<open>idna.encode\<close> rejects as an empty domain.\<close>

theorem encoding_failure_is_unclassified_witness:
  "\<not> rule1_fires sample_libs [] \<and> \<not> rule2_fires sample_libs [] \<and>
   \<not> rule3_fires sample_libs [] \<and> idna_encode sample_libs [] = Inl IDNAError \<and>
   classify sample_libs [] = ''UNCLASSIFIED''"
proof -
  have r: "\<not> rule1_fires sample_libs []" "\<not> rule2_fires sample_libs []"
          "\<not> rule3_fires sample_libs []" "idna_encode sample_libs [] = Inl IDNAError"
    by (simp_all add: rule1_fires_def rule2_fires_def rule3_fires_def
          sample_defs classify_eval dom_def)
  from encoding_failure_is_unclassified [OF r] r show ?thesis by simp
qed

subsection \<open>C3: lower-casing and rule 4\<close>

text \<open>
  Claim C3 says \<open>classify d = classify (lower d)\<close> for every input. Rules 1 to 3 read
  only the lower-cased domain, but rule 4 passes the domain as given to \<open>idna.encode\<close>.
  For U+00C4 \<open>.\<close> U+4E2D U+56FD (capital a-umlaut under the Han top-level domain) no rule
  of 1 to 3 fires, \<open>idna.encode\<close> rejects the capital letter and the result is
  \<open>UNCLASSIFIED\<close>, while the lower-cased string encodes to \<open>xn--4ca.xn--fiqs8s\<close> and
  is classified \<open>IDN.IDN\<close>.
\<close>

theorem classify_step4_case_sensitive:
  "str_lower sample_libs ([0xC4, 0x2E] @ han_cn) = [0xE4, 0x2E] @ han_cn \<and>
   classify sample_libs ([0xC4, 0x2E] @ han_cn) = ''UNCLASSIFIED'' \<and>
   classify sample_libs (str_lower sample_libs ([0xC4, 0x2E] @ han_cn)) = ''IDN.IDN''"
  by (simp add: sample_defs classify_eval)

section \<open>Properties of the floating-point model\<close>

lemma rne_floor_le: "\<lfloor>q\<rfloor> \<le> rne q"
  by (simp add: rne_def Let_def)

lemma rne_le_floor1: "rne q \<le> \<lfloor>q\<rfloor> + 1"
  by (simp add: rne_def Let_def)

lemma rne_of_int [simp]: "rne (of_int n) = n"
  by (simp add: rne_def Let_def)

lemma rne_mono: assumes "q \<le> q'" shows "rne q \<le> rne q'"
proof (cases "\<lfloor>q\<rfloor> = \<lfloor>q'\<rfloor>")
  case True
  with assms show ?thesis by (auto simp: rne_def Let_def)
next
  case False
  with assms have "\<lfloor>q\<rfloor> < \<lfloor>q'\<rfloor>" using floor_mono [OF assms] by linarith
  then have "rne q \<le> \<lfloor>q'\<rfloor>" using rne_le_floor1 [of q] by linarith
  with rne_floor_le [of q'] show ?thesis by linarith
qed

lemma rne_ge: "of_int a \<le> q \<Longrightarrow> a \<le> rne q"
  using rne_mono [of "of_int a" q] by simp

lemma rne_le: "q \<le> of_int b \<Longrightarrow> rne q \<le> b"
  using rne_mono [of q "of_int b"] by simp

lemma quot_binade:
  fixes p q :: rat
  assumes "2 powi (bp - 1) \<le> p" "p < 2 powi bp" "2 powi (bq - 1) \<le> q" "q < 2 powi bq"
  shows "2 powi (bp - bq - 1) < p / q" "p / q < 2 powi (bp - bq + 1)"
proof -
  have q0: "0 < q" using assms(3) by (rule less_le_trans [rotated]) simp
  have e1: "(2::rat) powi (bp - bq - 1) * 2 powi bq = 2 powi (bp - 1)"
    using power_int_add [of "2::rat" "bp - bq - 1" bq] by simp
  have e2: "(2::rat) powi (bp - bq + 1) * 2 powi (bq - 1) = 2 powi bp"
    using power_int_add [of "2::rat" "bp - bq + 1" "bq - 1"] by simp
  have "2 powi (bp - bq - 1) * q < 2 powi (bp - bq - 1) * 2 powi bq"
    using assms(4) by simp
  also have "\<dots> = 2 powi (bp - 1)" by (rule e1)
  also have "\<dots> \<le> p" by (rule assms(1))
  finally have "2 powi (bp - bq - 1) * q < p" .
  then show "2 powi (bp - bq - 1) < p / q" using q0 by (simp only: pos_less_divide_eq)
  have "p < 2 powi bp" by (rule assms(2))
  also have "\<dots> = 2 powi (bp - bq + 1) * 2 powi (bq - 1)" by (rule e2 [symmetric])
  also have "\<dots> \<le> 2 powi (bp - bq + 1) * q"
    using assms(3) by simp
  finally have "p < 2 powi (bp - bq + 1) * q" .
  then show "p / q < 2 powi (bp - bq + 1)" using q0 by (simp only: pos_divide_less_eq)
qed

lemma bitlen_powi:
  assumes "0 < n"
  shows "(2::rat) powi (bitlen n - 1) \<le> of_int n" "of_int n < (2::rat) powi bitlen n"
proof -
  from bitlen_bounds [OF assms] have b: "2 ^ nat (bitlen n - 1) \<le> n" "n < 2 ^ nat (bitlen n)"
    by simp_all
  have pos: "1 \<le> bitlen n"
    using assms bitlen_nonneg [of n] bitlen_eq_zero_iff [of n] by linarith
  have "(2::rat) powi (bitlen n - 1) = 2 ^ nat (bitlen n - 1)"
    using pos by (simp add: power_int_def)
  also have "\<dots> = of_int (2 ^ nat (bitlen n - 1))" by simp
  also have "\<dots> \<le> of_int n" using b(1) by (simp only: of_int_le_iff)
  finally show "(2::rat) powi (bitlen n - 1) \<le> of_int n" .
  have "(of_int n :: rat) < of_int (2 ^ nat (bitlen n))" using b(2) by (simp only: of_int_less_iff)
  also have "\<dots> = 2 ^ nat (bitlen n)" by simp
  also have "\<dots> = 2 powi bitlen n" using pos by (simp add: power_int_def)
  finally show "of_int n < (2::rat) powi bitlen n" .
qed

lemma binade_bounds:
  assumes "0 < x"
  shows "2 powi binade x \<le> x" and "x < 2 powi (binade x + 1)"
proof -
  obtain p q where pq: "quotient_of x = (p, q)" by (cases "quotient_of x")
  then have q: "0 < q" by (rule quotient_of_denom_pos)
  from pq have x: "x = of_int p / of_int q" by (rule quotient_of_div)
  from assms x q have p: "0 < p" by (simp add: zero_less_divide_iff)
  let ?d = "bitlen p - bitlen q"
  have lo: "2 powi (?d - 1) < x"
    unfolding x by (rule quot_binade(1) [OF bitlen_powi [OF p] bitlen_powi [OF q]])
  have hi: "x < 2 powi (?d + 1)"
    unfolding x by (rule quot_binade(2) [OF bitlen_powi [OF p] bitlen_powi [OF q]])
  have b: "binade x = (if 2 powi ?d \<le> x then ?d else ?d - 1)"
    by (simp add: binade_def pq Let_def)
  show "2 powi binade x \<le> x"
  proof (cases "2 powi ?d \<le> x")
    case True
    then show ?thesis by (simp only: b if_True)
  next
    case False
    then show ?thesis using lo by (simp only: b if_False less_imp_le)
  qed
  show "x < 2 powi (binade x + 1)"
  proof (cases "2 powi ?d \<le> x")
    case True
    then show ?thesis using hi by (simp only: b if_True)
  next
    case False
    then have "x < 2 powi ?d" by simp
    moreover have "?d - 1 + 1 = ?d" by simp
    ultimately show ?thesis using False by (simp only: b if_False)
  qed
qed

lemma two_powi_less_D:
  assumes "(2::rat) powi m < 2 powi n"
  shows "m < n"
proof (rule ccontr)
  assume "\<not> m < n"
  then have "n \<le> m" by simp
  then have "(2::rat) powi n \<le> 2 powi m" by (rule power_int_increasing) simp
  with assms show False by simp
qed

lemma binade_unique:
  assumes "(2::rat) powi e \<le> x" "x < 2 powi (e + 1)"
  shows "binade x = e"
proof -
  have x: "0 < x" using assms(1) by (rule less_le_trans [rotated]) simp
  note b = binade_bounds [OF x]
  have "(2::rat) powi e < 2 powi (binade x + 1)" using assms(1) b(2) by (rule le_less_trans)
  then have 1: "e < binade x + 1" by (rule two_powi_less_D)
  have "(2::rat) powi binade x < 2 powi (e + 1)" using b(1) assms(2) by (rule le_less_trans)
  then have 2: "binade x < e + 1" by (rule two_powi_less_D)
  from 1 2 show ?thesis by simp
qed

lemma binade_mono:
  assumes "0 < x" "x \<le> y"
  shows "binade x \<le> binade y"
proof -
  have y: "0 < y" using assms by simp
  have "(2::rat) powi binade x \<le> x" using binade_bounds(1) [OF assms(1)] .
  also have "x \<le> y" by fact
  also have "y < 2 powi (binade y + 1)" using binade_bounds(2) [OF y] .
  finally have "binade x < binade y + 1" by (rule two_powi_less_D)
  then show ?thesis by simp
qed

lemma ulp_pos: "0 < ulp x"
  by (simp add: ulp_def)

lemma ulp_expo: "ulp x = 2 powi (expo x - 52)"
  by (simp add: ulp_def expo_def)

lemma expo_mono: "0 < x \<Longrightarrow> x \<le> y \<Longrightarrow> expo x \<le> expo y"
  using binade_mono [of x y] by (simp add: expo_def)

lemma round_double_pos: "0 < x \<Longrightarrow> round_double x = of_int (rne (x / ulp x)) * ulp x"
  by (simp add: round_double_def)

lemma powi_split53: "(2::rat) powi 53 * 2 powi (e - 52) = 2 powi (e + 1)"
proof -
  have h: "53 + (e - 52) = e + 1" by simp
  have "(2::rat) powi (53 + (e - 52)) = 2 powi 53 * 2 powi (e - 52)"
    by (rule power_int_add) simp
  then show ?thesis by (simp only: h)
qed

lemma scaled_upper:
  assumes "0 < x"
  shows "x / ulp x \<le> of_int (2 ^ 53)"
proof -
  have "x < 2 powi (binade x + 1)" using binade_bounds(2) [OF assms] .
  also have "\<dots> \<le> 2 powi (expo x + 1)"
    by (rule power_int_increasing) (simp_all add: expo_def)
  also have "\<dots> = 2 powi 53 * 2 powi (expo x - 52)"
    by (rule powi_split53 [symmetric])
  finally have "x < 2 powi 53 * ulp x" by (simp only: ulp_expo)
  then have "x / ulp x < 2 powi 53" using ulp_pos [of x] by (simp only: pos_divide_less_eq)
  then show ?thesis by simp
qed

lemma round_double_upper:
  assumes "0 < x"
  shows "round_double x \<le> 2 powi (expo x + 1)"
proof -
  have "rne (x / ulp x) \<le> 2 ^ 53" using scaled_upper [OF assms] by (rule rne_le)
  then have "(of_int (rne (x / ulp x)) :: rat) \<le> of_int (2 ^ 53)" by (simp only: of_int_le_iff)
  then have "of_int (rne (x / ulp x)) * ulp x \<le> of_int (2 ^ 53) * ulp x"
    using ulp_pos [of x] by (simp only: mult_le_cancel_right_pos)
  also have "\<dots> = 2 powi 53 * 2 powi (expo x - 52)" by (simp add: ulp_expo)
  also have "\<dots> = 2 powi (expo x + 1)"
    by (rule powi_split53)
  finally show ?thesis by (simp only: round_double_pos [OF assms])
qed

lemma round_double_lower:
  assumes "0 < y" "expo y = binade y"
  shows "2 powi (expo y) \<le> round_double y"
proof -
  have e: "2 powi 52 * ulp y = 2 powi (expo y)"
    using power_int_add [of "2::rat" 52 "expo y - 52"] by (simp add: ulp_expo)
  have "2 powi (expo y) \<le> y" using binade_bounds(1) [OF assms(1)] by (simp only: assms(2))
  then have "2 powi 52 * ulp y \<le> y" by (simp only: e)
  then have "2 powi 52 \<le> y / ulp y" using ulp_pos [of y] by (simp only: pos_le_divide_eq)
  then have "of_int (2 ^ 52) \<le> y / ulp y" by simp
  then have "2 ^ 52 \<le> rne (y / ulp y)" by (rule rne_ge)
  then have "(of_int (2 ^ 52) :: rat) \<le> of_int (rne (y / ulp y))" by (simp only: of_int_le_iff)
  then have "of_int (2 ^ 52) * ulp y \<le> of_int (rne (y / ulp y)) * ulp y"
    using ulp_pos [of y] by (simp only: mult_le_cancel_right_pos)
  moreover have "of_int (2 ^ 52) * ulp y = 2 powi (expo y)" using e by simp
  ultimately show ?thesis by (simp only: round_double_pos [OF assms(1)])
qed

lemma round_double_mono_pos:
  assumes "0 < x" "x \<le> y"
  shows "round_double x \<le> round_double y"
proof -
  have y: "0 < y" using assms by simp
  have le: "expo x \<le> expo y" using assms by (rule expo_mono)
  show ?thesis
  proof (cases "expo x = expo y")
    case True
    then have u: "ulp x = ulp y" by (simp add: ulp_expo)
    have "x / ulp y \<le> y / ulp y" using assms(2) ulp_pos [of y] by (simp add: divide_right_mono)
    then have "rne (x / ulp y) \<le> rne (y / ulp y)" by (rule rne_mono)
    then have "(of_int (rne (x / ulp y)) :: rat) \<le> of_int (rne (y / ulp y))"
      by (simp only: of_int_le_iff)
    then have "of_int (rne (x / ulp y)) * ulp y \<le> of_int (rne (y / ulp y)) * ulp y"
      using ulp_pos [of y] by (simp only: mult_le_cancel_right_pos)
    then show ?thesis by (simp only: round_double_pos [OF assms(1)] round_double_pos [OF y] u)
  next
    case False
    with le have lt: "expo x < expo y" by simp
    then have eb: "expo y = binade y" by (simp add: expo_def max_def split: if_splits)
    have "round_double x \<le> 2 powi (expo x + 1)" using assms(1) by (rule round_double_upper)
    also have "\<dots> \<le> 2 powi (expo y)" using lt by (intro power_int_increasing) simp_all
    also have "\<dots> \<le> round_double y" using y eb by (rule round_double_lower)
    finally show ?thesis .
  qed
qed

lemma round_double_0 [simp]: "round_double 0 = 0"
  by (simp add: round_double_def)

lemma round_double_nonneg: "0 \<le> x \<Longrightarrow> 0 \<le> round_double x"
proof (cases "x = 0")
  case True
  then show ?thesis by simp
next
  case False
  assume "0 \<le> x"
  with False have x: "0 < x" by simp
  have "0 \<le> x / ulp x" using x ulp_pos [of x] by simp
  then have "of_int 0 \<le> x / ulp x" by simp
  then have "0 \<le> rne (x / ulp x)" by (rule rne_ge)
  then show ?thesis using ulp_pos [of x] by (simp add: round_double_pos [OF x])
qed

lemma round_double_mono:
  assumes "0 \<le> x" "x \<le> y"
  shows "round_double x \<le> round_double y"
proof (cases "x = 0")
  case True
  with assms show ?thesis using round_double_nonneg [of y] by simp
next
  case False
  with assms(1) have "0 < x" by simp
  then show ?thesis using assms(2) by (rule round_double_mono_pos)
qed

lemma round_double_exact:
  assumes "0 < x" "binade x = e" "- 1022 \<le> e" "x / 2 powi (e - 52) = of_int m"
  shows "round_double x = x"
proof -
  have u: "ulp x = 2 powi (e - 52)" using assms(2,3) by (simp add: ulp_def)
  have "of_int (rne (x / ulp x)) * ulp x = x / ulp x * ulp x"
    by (simp only: u assms(4) rne_of_int)
  also have "\<dots> = x" using ulp_pos [of x] by simp
  finally show ?thesis by (simp only: round_double_pos [OF assms(1)])
qed

lemma round_double_1 [simp]: "round_double 1 = 1"
proof (rule round_double_exact)
  show "binade 1 = 0" by (rule binade_unique) simp_all
  show "(1::rat) / 2 powi (0 - 52) = of_int (2 ^ 52)" by (simp add: power_int_minus)
qed simp_all

lemma round_double_100 [simp]: "round_double 100 = 100"
proof (rule round_double_exact)
  show "binade 100 = 6" by (rule binade_unique) simp_all
  show "(100::rat) / 2 powi (6 - 52) = of_int (100 * 2 ^ 46)" by (simp add: power_int_minus)
qed simp_all

section \<open>Properties of the progress percentage\<close>

text \<open>
  At a checkpoint the quotient lies between 0 and 1, so the division raises nothing and
  the percentage is \<open>pct\<close>, which is monotone in the row index and lies between 0 and
  100.
\<close>

lemma quotient_range:
  assumes "i \<le> max tot 1"
  shows "0 \<le> (of_int (int i) / of_int (int (max tot 1)) :: rat)"
    and "(of_int (int i) / of_int (int (max tot 1)) :: rat) \<le> 1"
  using assms by (simp_all add: divide_le_eq_1)

lemma rounded_quotient_range:
  assumes "i \<le> max tot 1"
  shows "0 \<le> round_double (of_int (int i) / of_int (int (max tot 1)))"
    and "round_double (of_int (int i) / of_int (int (max tot 1))) \<le> 1"
proof -
  note q = quotient_range [OF assms]
  show "0 \<le> round_double (of_int (int i) / of_int (int (max tot 1)))"
    using q(1) by (rule round_double_nonneg)
  have "round_double (of_int (int i) / of_int (int (max tot 1))) \<le> round_double 1"
    using q by (rule round_double_mono)
  then show "round_double (of_int (int i) / of_int (int (max tot 1))) \<le> 1" by simp
qed

lemma percent_value:
  assumes "i \<le> max tot 1"
  shows "percent i tot = Inr (pct i tot)"
proof -
  note r = rounded_quotient_range [OF assms]
  have "\<bar>round_double (of_int (int i) / of_int (int (max tot 1)))\<bar> \<le> 1"
    using r by simp
  also have "(1::rat) < 2 ^ 1024" by simp
  finally have "\<not> 2 ^ 1024 \<le> \<bar>round_double (of_int (int i) / of_int (int (max tot 1)))\<bar>"
    by simp
  moreover have "int (max tot 1) \<noteq> 0" by simp
  ultimately show ?thesis
    by (simp only: percent_def truediv_def pct_def if_False sum.case)
qed

lemma percent_never_divides_by_zero: "percent i tot \<noteq> Inl ZeroDivisionError"
proof -
  have "int (max tot 1) \<noteq> 0" by simp
  then show ?thesis
    by (simp add: percent_def truediv_def del: of_nat_max)
qed

lemma pct_nonneg: "0 \<le> pct i tot"
proof -
  have "0 \<le> (of_int (int i) / of_int (int (max tot 1)) :: rat)" by simp
  then have "0 \<le> round_double (of_int (int i) / of_int (int (max tot 1)))"
    by (rule round_double_nonneg)
  then have "0 \<le> round_double (of_int (int i) / of_int (int (max tot 1))) * 100" by simp
  then have "0 \<le> fmul (round_double (of_int (int i) / of_int (int (max tot 1)))) 100"
    unfolding fmul_def by (rule round_double_nonneg)
  then show ?thesis by (simp add: pct_def trunc_def)
qed

lemma pct_le_100:
  assumes "i \<le> max tot 1"
  shows "pct i tot \<le> 100"
proof -
  note r = rounded_quotient_range [OF assms]
  have a: "0 \<le> round_double (of_int (int i) / of_int (int (max tot 1))) * 100"
    using r(1) by simp
  have b: "round_double (of_int (int i) / of_int (int (max tot 1))) * 100 \<le> 100"
    using r(2) by simp
  have "fmul (round_double (of_int (int i) / of_int (int (max tot 1)))) 100 \<le> round_double 100"
    unfolding fmul_def using a b by (rule round_double_mono)
  then have c: "fmul (round_double (of_int (int i) / of_int (int (max tot 1)))) 100 \<le> 100"
    by simp
  have "0 \<le> fmul (round_double (of_int (int i) / of_int (int (max tot 1)))) 100"
    unfolding fmul_def using a by (rule round_double_nonneg)
  then have "pct i tot = \<lfloor>fmul (round_double (of_int (int i) / of_int (int (max tot 1)))) 100\<rfloor>"
    by (simp add: pct_def trunc_def)
  also have "\<dots> \<le> \<lfloor>100::rat\<rfloor>" using c by (rule floor_mono)
  finally show ?thesis by simp
qed

lemma pct_mono:
  assumes "i \<le> j"
  shows "pct i tot \<le> pct j tot"
proof -
  let ?q = "\<lambda>k. (of_int (int k) / of_int (int (max tot 1)) :: rat)"
  have q: "0 \<le> ?q i" "?q i \<le> ?q j" using assms by (simp_all add: divide_right_mono)
  have r0: "0 \<le> round_double (?q i)" using q(1) by (rule round_double_nonneg)
  have r1: "round_double (?q i) \<le> round_double (?q j)" using q by (rule round_double_mono)
  have m0: "0 \<le> round_double (?q i) * 100" using r0 by simp
  have m1: "round_double (?q i) * 100 \<le> round_double (?q j) * 100" using r1 by simp
  have f0: "0 \<le> fmul (round_double (?q i)) 100"
    unfolding fmul_def using m0 by (rule round_double_nonneg)
  have f1: "fmul (round_double (?q i)) 100 \<le> fmul (round_double (?q j)) 100"
    unfolding fmul_def using m0 m1 by (rule round_double_mono)
  have f2: "0 \<le> fmul (round_double (?q j)) 100" using f0 f1 by simp
  have "pct i tot = \<lfloor>fmul (round_double (?q i)) 100\<rfloor>" using f0 by (simp add: pct_def trunc_def)
  also have "\<dots> \<le> \<lfloor>fmul (round_double (?q j)) 100\<rfloor>" using f1 by (rule floor_mono)
  also have "\<dots> = pct j tot" using f2 by (simp add: pct_def trunc_def)
  finally show ?thesis .
qed

lemma pct_0: "pct 0 tot = 0"
  by (simp add: pct_def fmul_def trunc_def)

text \<open>
  The rounding is visible: at row 1450 of 5000 the program reports 28, where exact
  arithmetic gives 29.
\<close>

lemma percent_1450_of_5000: "percent 1450 5000 = Inr 28 \<and> (1450 * 100) div 5000 = (29::int)"
  by code_simp

section \<open>Properties of the worker\<close>

text \<open>
  The loop over the rows of a table never raises: it fills the \<open>bucket\<close> column with
  the label of each row and emits one checkpoint at every index divisible by 50.
\<close>

lemma loop_result:
  assumes "i + length ds \<le> tot" and "length col = tot"
  shows "loop L tot i ds (col, w) =
           (None,
            take i col @ map (classify L) ds @ drop (i + length ds) col,
            w\<lparr>emitted := emitted w @
                 map (\<lambda>k. Progress (pct k tot))
                     (filter (\<lambda>k. k mod 50 = 0) [i..<i + length ds])\<rparr>)"
  using assms
proof (induction ds arbitrary: i col w)
  case Nil
  then show ?case by simp
next
  case (Cons d ds)
  let ?col = "col[i := classify L d]"
  from Cons.prems have i: "i < tot" and len: "length ?col = tot"
    and nxt: "Suc i + length ds \<le> tot" by simp_all
  from i have p: "percent i tot = Inr (pct i tot)"
    by (intro percent_value) simp
  have tk: "take (Suc i) ?col = take i col @ [classify L d]"
    using i Cons.prems(2) by (simp add: take_Suc_conv_app_nth)
  have dr: "drop (Suc i + length ds) ?col = drop (Suc i + length ds) col"
    by simp
  have up: "[i..<Suc (i + length ds)] = i # [Suc i..<Suc (i + length ds)]"
    by (rule upt_conv_Cons) simp
  note IH = Cons.IH [OF nxt len]
  show ?case
  proof (cases "i mod 50 = 0")
    case True
    then show ?thesis
      by (simp add: p IH tk dr up emit_def del: upt_Suc)
  next
    case False
    then show ?thesis
      by (simp add: IH tk dr up del: upt_Suc)
  qed
qed

lemma loop_all_rows:
  "loop L (length ds) 0 ds (replicate (length ds) [], w) =
     (None, map (classify L) ds,
      w\<lparr>emitted := emitted w @
           map (\<lambda>k. Progress (pct k (length ds)))
               (filter (\<lambda>k. k mod 50 = 0) [0..<length ds])\<rparr>)"
  using loop_result [of 0 ds "length ds" "replicate (length ds) []" L w] by simp

text \<open>
  The workbook the writer builds: the buckets that label some row, in the order of
  \<open>ALL_BUCKETS\<close>, each with its rows.
\<close>

lemma write_sheets_eq:
  "write_sheets df bs wb =
     wb @ map (\<lambda>b. (take 31 b, filter (\<lambda>r. snd r = b) df))
              (filter (\<lambda>b. b \<in> snd ` set df) bs)"
proof (induction bs arbitrary: wb)
  case Nil
  show ?case by simp
next
  case (Cons b bs)
  have e: "(filter (\<lambda>r. snd r = b) df \<noteq> []) = (b \<in> snd ` set df)"
    by (auto simp: filter_empty_conv image_iff)
  show ?case
    by (simp add: Cons.IH Let_def e)
qed

text \<open>
  The three ways a run can go: the input cannot be read, the column is missing, or the
  rows are classified and the report is written (or the writer raises).
\<close>

lemma run_read_fails:
  assumes "read_input L E infile = Inl e"
  shows "run L E infile outfile w = emit (Finished outfile (str_exn e) Map.empty) w"
  using assms by (simp add: run_def)

lemma run_missing_column:
  assumes "read_input L E infile = Inr df" and "COLUMN \<notin> set (columns df)"
  shows "run L E infile outfile w = emit (Finished outfile missing_column_message Map.empty) w"
  using assms by (simp add: run_def)

lemma run_classifies:
  assumes "read_input L E infile = Inr df" and "COLUMN \<in> set (columns df)"
  shows "run L E infile outfile w =
           (let col = map (\<lambda>r. classify L (strip (cell r COLUMN))) (rows df);
                w2 = w\<lparr>emitted := emitted w @
                        map (\<lambda>k. Progress (pct k (length (rows df))))
                            (filter (\<lambda>k. k mod 50 = 0) [0..<length (rows df)]) @
                        [Progress 100]\<rparr>
            in case multi_sheet_write E (zip (rows df) col) outfile w2 of
                 Inl e \<Rightarrow> emit (Finished outfile (str_exn e) Map.empty) w2
               | Inr w3 \<Rightarrow>
                   emit (Finished outfile []
                           ((value_counts col)(''TOTAL'' \<mapsto> length (rows df)))) w3)"
proof -
  let ?ds = "map (\<lambda>r. strip (cell r COLUMN)) (rows df)"
  have l: "loop L (length (rows df)) 0 ?ds (replicate (length (rows df)) [], w) =
     (None, map (classify L) ?ds,
      w\<lparr>emitted := emitted w @
           map (\<lambda>k. Progress (pct k (length (rows df))))
               (filter (\<lambda>k. k mod 50 = 0) [0..<length (rows df)])\<rparr>)"
    using loop_all_rows [of L ?ds w] by (simp only: length_map)
  have m: "map (classify L) ?ds = map (\<lambda>r. classify L (strip (cell r COLUMN))) (rows df)"
    by simp
  show ?thesis
    unfolding run_def using assms
    by (simp add: l Let_def emit_def o_def cong: sum.case_cong)
qed

lemma checkpoints_sorted:
  "sorted (map (\<lambda>k. pct k n) (filter P [0..<n]))"
proof -
  have "sorted_wrt (\<le>) [0..<n]"
    by simp
  then have "sorted_wrt (\<lambda>x y. pct x n \<le> pct y n) [0..<n]"
    by (rule sorted_wrt_mono_rel [rotated]) (rule pct_mono)
  then have "sorted_wrt (\<lambda>x y. pct x n \<le> pct y n) (filter P [0..<n])"
    by (rule sorted_wrt_filter)
  then show ?thesis
    by (simp add: sorted_map)
qed

lemma checkpoints_range:
  assumes "p \<in> set (map (\<lambda>k. pct k n) (filter P [0..<n]))"
  shows "0 \<le> p \<and> p \<le> 100"
proof -
  from assms obtain k where k: "k < n" and p: "p = pct k n" by auto
  from k have "k \<le> max n 1" by simp
  then show ?thesis
    unfolding p using pct_nonneg [of k n] pct_le_100 [of k n] by simp
qed

lemma checkpoints_ok:
  "progress_sequence_ok (map (\<lambda>k. pct k n) (filter P [0..<n]) @ [100])"
  using checkpoints_sorted [of n P] checkpoints_range [of _ n P]
  by (auto simp: progress_sequence_ok_def sorted_append list_all_iff)

lemma TOTAL_not_bucket: "''TOTAL'' \<notin> set ALL_BUCKETS"
  by (simp add: ALL_BUCKETS_def BUCKETS_def)

lemma value_counts_dom: "dom (value_counts col) = set col"
  by (auto simp: value_counts_def dom_def count_list_0_iff)

lemma value_counts_sum:
  assumes "''TOTAL'' \<notin> set col"
  shows "(\<Sum>b \<in> dom ((value_counts col)(''TOTAL'' \<mapsto> n)) - {''TOTAL''}.
            the (((value_counts col)(''TOTAL'' \<mapsto> n)) b)) = length col"
proof -
  have d: "dom ((value_counts col)(''TOTAL'' \<mapsto> n)) - {''TOTAL''} = set col"
    using assms by (auto simp: value_counts_dom)
  have "(\<Sum>b \<in> set col. the (((value_counts col)(''TOTAL'' \<mapsto> n)) b)) =
          (\<Sum>b \<in> set col. count_list col b)"
    using assms by (intro sum.cong) (auto simp: value_counts_def count_list_0_iff)
  also have "\<dots> = length col"
    by (rule sum_count_set) simp_all
  finally show ?thesis
    by (simp only: d)
qed

subsection \<open>The sample runs\<close>

lemma strip_samples:
  "strip (ascii ''example.com.cn'') = ascii ''example.com.cn''"
  "strip (ascii '' notadomain'') = ascii ''notadomain''"
  "strip (ascii ''EXAMPLE.com.cn '') = ascii ''EXAMPLE.com.cn''"
  "strip (ascii ''example.xj.cn'') = ascii ''example.xj.cn''"
  by (simp_all add: strip_def py_isspace_def ascii_simps)

lemma classify_samples:
  "classify sample_libs (ascii ''example.com.cn'') = ''.COM.CN''"
  "classify sample_libs (ascii ''notadomain'') = ''UNCLASSIFIED''"
  "classify sample_libs (ascii ''EXAMPLE.com.cn'') = ''.COM.CN''"
  "classify sample_libs (ascii ''example.xj.cn'') = ''ASCII.CN''"
  by (simp_all add: sample_defs classify_eval)

lemma labels_of_table_of_four:
  "map (\<lambda>r. classify sample_libs (strip (cell r COLUMN))) (rows table_of_four) = labels_of_four"
  by (simp add: table_of_four_def cell_def strip_samples classify_samples labels_of_four_def)

lemma read_samples:
  "read_input sample_libs sample_env (ascii ''domains.csv'') = Inr table_of_four"
  "read_input sample_libs sample_env (ascii ''names.csv'') = Inr table_without_column"
  "read_input sample_libs sample_env (ascii ''empty.csv'') = Inr table_empty"
  by (simp_all add: read_input_def sample_env_def sample_read_def sample_files_def sample_defs)

lemma column_samples:
  "COLUMN \<in> set (columns table_of_four)"
  "COLUMN \<notin> set (columns table_without_column)"
  "COLUMN \<in> set (columns table_empty)"
  by (simp_all add: table_of_four_def table_without_column_def table_empty_def COLUMN_def
        ascii_simps)

lemma sheets_of_four:
  "write_sheets (zip (rows table_of_four) labels_of_four) ALL_BUCKETS [] =
     [(''ASCII.CN'', [([(COLUMN, ascii ''example.xj.cn'')], ''ASCII.CN'')]),
      (''.COM.CN'', [([(COLUMN, ascii ''example.com.cn'')], ''.COM.CN''),
                     ([(COLUMN, ascii ''EXAMPLE.com.cn '')], ''.COM.CN'')]),
      (''UNCLASSIFIED'', [([(COLUMN, ascii '' notadomain'')], ''UNCLASSIFIED'')])]"
  by (simp add: table_of_four_def labels_of_four_def ALL_BUCKETS_def BUCKETS_def)

lemma run_of_four:
  "run sample_libs sample_env (ascii ''domains.csv'') (ascii ''out.xlsx'') world0 =
     \<lparr>emitted = [Progress 0, Progress 100,
                  Finished (ascii ''out.xlsx'') []
                    ((value_counts labels_of_four)(''TOTAL'' \<mapsto> 4))],
      files = [ascii ''out.xlsx'' \<mapsto>
                 write_sheets (zip (rows table_of_four) labels_of_four) ALL_BUCKETS []]\<rparr>"
proof -
  have n: "length (rows table_of_four) = 4"
    by (simp add: table_of_four_def)
  have k: "filter (\<lambda>k. k mod 50 = 0) [0..<4] = [0::nat]"
    by (simp add: upt_rec)
  have s: "excel_save sample_env (ascii ''out.xlsx'')
             (write_sheets (zip (rows table_of_four) labels_of_four) ALL_BUCKETS []) = None"
    by (simp add: sheets_of_four sample_env_def sample_save_def)
  show ?thesis
    unfolding run_classifies [OF read_samples(1) column_samples(1)] labels_of_table_of_four
    by (simp add: n k s pct_0 Let_def multi_sheet_write_def emit_def world0_def)
qed

lemma run_of_empty:
  "run sample_libs sample_env (ascii ''empty.csv'') (ascii ''out.xlsx'') world0 =
     \<lparr>emitted = [Progress 100,
                  Finished (ascii ''out.xlsx'') ''At least one sheet must be visible'' Map.empty],
      files = Map.empty\<rparr>"
  unfolding run_classifies [OF read_samples(3) column_samples(3)]
  by (simp add: table_empty_def Let_def multi_sheet_write_def emit_def world0_def
        sample_env_def sample_save_def write_sheets_eq)

subsection \<open>C6: a table without the column\<close>

text \<open>
  Claim C6. When the table read from the input has no column named exactly
  \<open>Domain Name\<close>, the run raises the \<open>ValueError\<close> of the source: the only signal it emits
  is the completion signal, carrying the message of that error (a non-empty,
  human-readable sentence) and an empty counts dictionary, and no file is written.
\<close>

theorem missing_column_fails:
  assumes "read_input L E infile = Inr df" and "COLUMN \<notin> set (columns df)"
  shows "emitted (run L E infile outfile w) =
           emitted w @ [Finished outfile ''Input must contain a 'Domain Name' column.'' Map.empty]
         \<and> files (run L E infile outfile w) = files w"
  using run_missing_column [OF assms]
  by (simp add: emit_def missing_column_message_def)

text \<open>
  The theorem at \<open>names.csv\<close>, whose only column is \<open>Name\<close>.
\<close>

theorem missing_column_fails_witness:
  "read_input sample_libs sample_env (ascii ''names.csv'') = Inr table_without_column \<and>
   COLUMN \<notin> set (columns table_without_column) \<and>
   emitted (run sample_libs sample_env (ascii ''names.csv'') (ascii ''out.xlsx'') world0) =
     [Finished (ascii ''out.xlsx'') ''Input must contain a 'Domain Name' column.'' Map.empty] \<and>
   files (run sample_libs sample_env (ascii ''names.csv'') (ascii ''out.xlsx'') world0) = Map.empty"
proof -
  note h = read_samples(2) column_samples(2)
  from missing_column_fails [OF h] h show ?thesis by (simp add: world0_def)
qed

subsection \<open>C7: the progress sequence and the completion signal\<close>

text \<open>
  Claim C7 says that in every run the last progress value is 100. A run that fails
  before the loop emits no progress value at all: for \<open>names.csv\<close>, which lacks the
  column, the sequence of progress values is empty and has no last value.
\<close>

theorem no_progress_without_column:
  "progress_values (emitted (run sample_libs sample_env (ascii ''names.csv'')
                               (ascii ''out.xlsx'') world0)) = [] \<and>
   \<not> progress_sequence_ok
       (progress_values (emitted (run sample_libs sample_env (ascii ''names.csv'')
                                    (ascii ''out.xlsx'') world0)))"
  unfolding run_missing_column [OF read_samples(2) column_samples(2)]
  by (simp add: emit_def world0_def progress_sequence_ok_def)

text \<open>
  Claim C7, amended. In every run the signals emitted are a sequence of progress values
  followed by exactly one completion signal; the progress values are non-decreasing and
  lie between 0 and 100. When the input is read and has the column, the progress values
  are the percentage at every row index divisible by 50 followed by a final 100, so the
  last value is 100; when reading fails or the column is missing there is no progress
  value.
\<close>

theorem progress_then_one_completion:
  "\<exists>ps fin. emitted (run L E infile outfile w) = emitted w @ map Progress ps @ [fin] \<and>
      is_finished fin \<and> sorted ps \<and> list_all (\<lambda>p. 0 \<le> p \<and> p \<le> 100) ps \<and>
      (case read_input L E infile of
         Inl e \<Rightarrow> ps = []
       | Inr df \<Rightarrow>
           if COLUMN \<in> set (columns df)
           then ps = map (\<lambda>k. pct k (length (rows df)))
                         (filter (\<lambda>k. k mod 50 = 0) [0..<length (rows df)]) @ [100]
                \<and> last ps = 100
           else ps = [])"
proof (cases "read_input L E infile")
  case (Inl e)
  have "emitted (run L E infile outfile w) =
          emitted w @ map Progress [] @ [Finished outfile (str_exn e) Map.empty]"
    by (simp add: run_read_fails [OF Inl] emit_def)
  then show ?thesis
    using Inl by (intro exI [of _ "[]"] exI [of _ "Finished outfile (str_exn e) Map.empty"]) simp
next
  case (Inr df)
  show ?thesis
  proof (cases "COLUMN \<in> set (columns df)")
    case False
    have "emitted (run L E infile outfile w) =
            emitted w @ map Progress [] @ [Finished outfile missing_column_message Map.empty]"
      by (simp add: run_missing_column [OF Inr False] emit_def)
    then show ?thesis
      using Inr False
      by (intro exI [of _ "[]"] exI [of _ "Finished outfile missing_column_message Map.empty"])
         simp
  next
    case True
    let ?ps = "map (\<lambda>k. pct k (length (rows df)))
                   (filter (\<lambda>k. k mod 50 = 0) [0..<length (rows df)]) @ [100]"
    note ok = checkpoints_ok [of "length (rows df)" "\<lambda>k. k mod 50 = 0"]
    have "\<exists>fin. emitted (run L E infile outfile w) = emitted w @ map Progress ?ps @ [fin]
            \<and> is_finished fin"
      unfolding run_classifies [OF Inr True]
      by (simp add: Let_def emit_def multi_sheet_write_def o_def
            split: sum.split option.split)
    then obtain fin where
      "emitted (run L E infile outfile w) = emitted w @ map Progress ?ps @ [fin]"
      "is_finished fin" by blast
    then show ?thesis
      using Inr True ok
      by (intro exI [of _ ?ps] exI [of _ fin]) (simp add: progress_sequence_ok_def)
  qed
qed

text \<open>
  The theorem at \<open>domains.csv\<close>, a table of four rows: the progress values are 0 and
  100.
\<close>

theorem progress_then_one_completion_witness:
  "read_input sample_libs sample_env (ascii ''domains.csv'') = Inr table_of_four \<and>
   COLUMN \<in> set (columns table_of_four) \<and>
   (\<exists>ps fin. emitted (run sample_libs sample_env (ascii ''domains.csv'')
                        (ascii ''out.xlsx'') world0) = map Progress ps @ [fin] \<and>
      is_finished fin \<and> ps = [0, 100] \<and> progress_sequence_ok ps)"
proof -
  have n: "length (rows table_of_four) = 4"
    by (simp add: table_of_four_def)
  have k: "filter (\<lambda>k. k mod 50 = 0) [0..<4] = [0::nat]"
    by (simp add: upt_rec)
  from progress_then_one_completion
         [of sample_libs sample_env "ascii ''domains.csv''" "ascii ''out.xlsx''" world0]
  obtain ps fin where
    "emitted (run sample_libs sample_env (ascii ''domains.csv'') (ascii ''out.xlsx'') world0)
       = emitted world0 @ map Progress ps @ [fin]"
    "is_finished fin" "ps = [0, 100]"
    by (auto simp: read_samples column_samples n k pct_0)
  then show ?thesis
    by (auto simp: read_samples column_samples world0_def progress_sequence_ok_def)
qed

subsection \<open>C8: the counts add up to the number of rows\<close>

text \<open>
  Claim C8. In a run that succeeds (the input is read, it has the column, and saving the
  workbook raises nothing) the completion signal carries an empty error and a counts
  dictionary whose \<open>TOTAL\<close> entry is the number of rows of the table; its other keys are
  bucket labels and their counts add up to the number of rows.
\<close>

theorem counts_sum_to_total:
  assumes "read_input L E infile = Inr df" and "COLUMN \<in> set (columns df)"
    and "excel_save E outfile
           (write_sheets (zip (rows df) (map (\<lambda>r. classify L (strip (cell r COLUMN))) (rows df)))
              ALL_BUCKETS []) = None"
  shows "\<exists>cnt. last (emitted (run L E infile outfile w)) = Finished outfile [] cnt \<and>
           cnt ''TOTAL'' = Some (length (rows df)) \<and>
           (\<Sum>b \<in> dom cnt - {''TOTAL''}. the (cnt b)) = length (rows df) \<and>
           dom cnt - {''TOTAL''} \<subseteq> set ALL_BUCKETS"
proof -
  let ?col = "map (\<lambda>r. classify L (strip (cell r COLUMN))) (rows df)"
  let ?cnt = "(value_counts ?col)(''TOTAL'' \<mapsto> length (rows df))"
  have b: "set ?col \<subseteq> set ALL_BUCKETS"
    using classify_cases by (auto simp: set_ALL_BUCKETS)
  with TOTAL_not_bucket have t: "''TOTAL'' \<notin> set ?col"
    by blast
  have l: "last (emitted (run L E infile outfile w)) = Finished outfile [] ?cnt"
    unfolding run_classifies [OF assms(1,2)]
    by (simp add: Let_def multi_sheet_write_def assms(3) emit_def)
  have s: "(\<Sum>b \<in> dom ?cnt - {''TOTAL''}. the (?cnt b)) = length (rows df)"
    using value_counts_sum [OF t, of "length (rows df)"] by simp
  have d: "dom ?cnt - {''TOTAL''} \<subseteq> set ALL_BUCKETS"
    using b by (auto simp: value_counts_dom)
  from l s d show ?thesis
    by (intro exI [of _ ?cnt]) simp
qed

text \<open>
  The theorem at \<open>domains.csv\<close>: two rows in \<open>.COM.CN\<close>, one in \<open>ASCII.CN\<close>, one in
  \<open>UNCLASSIFIED\<close>, four in total.
\<close>

theorem counts_sum_to_total_witness:
  "read_input sample_libs sample_env (ascii ''domains.csv'') = Inr table_of_four \<and>
   COLUMN \<in> set (columns table_of_four) \<and>
   excel_save sample_env (ascii ''out.xlsx'')
     (write_sheets (zip (rows table_of_four) labels_of_four) ALL_BUCKETS []) = None \<and>
   length (rows table_of_four) = 4 \<and>
   (\<exists>cnt. last (emitted (run sample_libs sample_env (ascii ''domains.csv'')
                          (ascii ''out.xlsx'') world0))
            = Finished (ascii ''out.xlsx'') [] cnt \<and>
      cnt ''.COM.CN'' = Some 2 \<and> cnt ''ASCII.CN'' = Some 1 \<and> cnt ''UNCLASSIFIED'' = Some 1 \<and>
      cnt ''TOTAL'' = Some 4 \<and>
      (\<Sum>b \<in> dom cnt - {''TOTAL''}. the (cnt b)) = 4)"
proof -
  have s: "excel_save sample_env (ascii ''out.xlsx'')
             (write_sheets (zip (rows table_of_four)
                (map (\<lambda>r. classify sample_libs (strip (cell r COLUMN))) (rows table_of_four)))
                ALL_BUCKETS []) = None"
    by (simp add: labels_of_table_of_four sheets_of_four sample_env_def sample_save_def)
  have n: "length (rows table_of_four) = 4"
    by (simp add: table_of_four_def)
  from counts_sum_to_total [OF read_samples(1) column_samples(1) s, of world0]
  obtain cnt where c:
    "last (emitted (run sample_libs sample_env (ascii ''domains.csv'') (ascii ''out.xlsx'')
                      world0)) = Finished (ascii ''out.xlsx'') [] cnt"
    "cnt ''TOTAL'' = Some 4"
    "(\<Sum>b \<in> dom cnt - {''TOTAL''}. the (cnt b)) = 4"
    by (auto simp: n)
  from c(1) have "cnt = (value_counts labels_of_four)(''TOTAL'' \<mapsto> 4)"
    by (simp add: run_of_four)
  then have v: "cnt ''.COM.CN'' = Some 2" "cnt ''ASCII.CN'' = Some 1"
    "cnt ''UNCLASSIFIED'' = Some 1"
    by (simp_all add: value_counts_def labels_of_four_def)
  from s c v n show ?thesis
    by (auto simp: read_samples column_samples labels_of_table_of_four)
qed

subsection \<open>C9: one sheet for every bucket that has a row\<close>

text \<open>
  Claim C9. The workbook the report writer builds has one sheet for every bucket of
  \<open>ALL_BUCKETS\<close> that labels at least one row, in the order of \<open>ALL_BUCKETS\<close>, named by
  the first 31 characters of the label (which is the whole label for each of the nine
  buckets, so the names are distinct); a bucket without a row has no sheet; every sheet
  holds the rows of its bucket in the order of the input, and is not empty. When saving
  raises nothing, that workbook is what is stored at the destination.
\<close>

theorem sheet_per_nonempty_bucket:
  "write_sheets df ALL_BUCKETS [] =
     map (\<lambda>b. (take 31 b, filter (\<lambda>r. snd r = b) df))
         (filter (\<lambda>b. b \<in> snd ` set df) ALL_BUCKETS)
   \<and> (\<forall>b \<in> set ALL_BUCKETS. take 31 b = b)
   \<and> distinct (map fst (write_sheets df ALL_BUCKETS []))
   \<and> (\<forall>s \<in> set (write_sheets df ALL_BUCKETS []). snd s \<noteq> [] \<and> subseq (snd s) df)
   \<and> (excel_save E dest (write_sheets df ALL_BUCKETS []) = None \<longrightarrow>
        multi_sheet_write E df dest w =
          Inr (w\<lparr>files := (files w)(dest \<mapsto> write_sheets df ALL_BUCKETS [])\<rparr>))"
proof -
  have t: "\<forall>b \<in> set ALL_BUCKETS. take 31 b = b"
    by (simp add: ALL_BUCKETS_def BUCKETS_def)
  have d: "distinct ALL_BUCKETS"
    by (simp add: ALL_BUCKETS_def BUCKETS_def)
  have e: "write_sheets df ALL_BUCKETS [] =
     map (\<lambda>b. (take 31 b, filter (\<lambda>r. snd r = b) df))
         (filter (\<lambda>b. b \<in> snd ` set df) ALL_BUCKETS)"
    by (simp add: write_sheets_eq)
  have "map fst (write_sheets df ALL_BUCKETS []) =
          map (take 31) (filter (\<lambda>b. b \<in> snd ` set df) ALL_BUCKETS)"
    by (simp add: e o_def)
  also have "\<dots> = filter (\<lambda>b. b \<in> snd ` set df) ALL_BUCKETS"
    using t by (intro map_idI) simp
  finally have n: "map fst (write_sheets df ALL_BUCKETS []) =
                     filter (\<lambda>b. b \<in> snd ` set df) ALL_BUCKETS" .
  have dn: "distinct (map fst (write_sheets df ALL_BUCKETS []))"
    unfolding n using d by (rule distinct_filter)
  have s: "\<forall>s \<in> set (write_sheets df ALL_BUCKETS []). snd s \<noteq> [] \<and> subseq (snd s) df"
    unfolding e by (auto simp: filter_empty_conv)
  have m: "excel_save E dest (write_sheets df ALL_BUCKETS []) = None \<longrightarrow>
        multi_sheet_write E df dest w =
          Inr (w\<lparr>files := (files w)(dest \<mapsto> write_sheets df ALL_BUCKETS [])\<rparr>)"
    by (simp add: multi_sheet_write_def Let_def)
  from e t dn s m show ?thesis by blast
qed

text \<open>
  The theorem at the four labelled rows of \<open>domains.csv\<close>: the sheets come in the order
  of \<open>ALL_BUCKETS\<close>, not of the input, and the two rows of \<open>.COM.CN\<close> keep their order.
\<close>

theorem sheet_per_nonempty_bucket_witness:
  "write_sheets (zip (rows table_of_four) labels_of_four) ALL_BUCKETS [] =
     [(''ASCII.CN'', [([(COLUMN, ascii ''example.xj.cn'')], ''ASCII.CN'')]),
      (''.COM.CN'', [([(COLUMN, ascii ''example.com.cn'')], ''.COM.CN''),
                     ([(COLUMN, ascii ''EXAMPLE.com.cn '')], ''.COM.CN'')]),
      (''UNCLASSIFIED'', [([(COLUMN, ascii '' notadomain'')], ''UNCLASSIFIED'')])] \<and>
   excel_save sample_env (ascii ''out.xlsx'')
     (write_sheets (zip (rows table_of_four) labels_of_four) ALL_BUCKETS []) = None \<and>
   multi_sheet_write sample_env (zip (rows table_of_four) labels_of_four) (ascii ''out.xlsx'')
       world0 =
     Inr (world0\<lparr>files := [ascii ''out.xlsx'' \<mapsto>
            write_sheets (zip (rows table_of_four) labels_of_four) ALL_BUCKETS []]\<rparr>)"
proof -
  have s: "excel_save sample_env (ascii ''out.xlsx'')
             (write_sheets (zip (rows table_of_four) labels_of_four) ALL_BUCKETS []) = None"
    by (simp add: sheets_of_four sample_env_def sample_save_def)
  from sheet_per_nonempty_bucket
         [of "zip (rows table_of_four) labels_of_four" sample_env "ascii ''out.xlsx''" world0] s
  have "multi_sheet_write sample_env (zip (rows table_of_four) labels_of_four)
          (ascii ''out.xlsx'') world0 =
        Inr (world0\<lparr>files := (files world0)(ascii ''out.xlsx'' \<mapsto>
               write_sheets (zip (rows table_of_four) labels_of_four) ALL_BUCKETS [])\<rparr>)"
    by blast
  with s sheets_of_four show ?thesis
    by (simp add: world0_def)
qed

subsection \<open>C10: the guarded division\<close>

text \<open>
  Claim C10. The division by \<open>max(total, 1)\<close> never raises \<open>ZeroDivisionError\<close>, whatever
  the row count; at every row index up to the row count the percentage is defined and
  lies between 0 and 100. On a table without rows the loop classifies nothing and emits
  nothing, and the only progress value of the run is the final 100.
\<close>

theorem percent_guarded:
  "percent i tot \<noteq> Inl ZeroDivisionError \<and>
   (i \<le> max tot 1 \<longrightarrow> (\<exists>p. percent i tot = Inr p \<and> 0 \<le> p \<and> p \<le> 100)) \<and>
   loop L 0 0 [] (col, w) = (None, col, w) \<and>
   (read_input L E infile = Inr df \<and> COLUMN \<in> set (columns df) \<and> rows df = [] \<longrightarrow>
      progress_values (drop (length (emitted w)) (emitted (run L E infile outfile w))) = [100])"
proof -
  have a: "percent i tot \<noteq> Inl ZeroDivisionError"
    by (rule percent_never_divides_by_zero)
  have b: "i \<le> max tot 1 \<longrightarrow> (\<exists>p. percent i tot = Inr p \<and> 0 \<le> p \<and> p \<le> 100)"
    using percent_value [of i tot] pct_nonneg [of i tot] pct_le_100 [of i tot] by blast
  have c: "read_input L E infile = Inr df \<and> COLUMN \<in> set (columns df) \<and> rows df = [] \<longrightarrow>
      progress_values (drop (length (emitted w)) (emitted (run L E infile outfile w))) = [100]"
  proof (intro impI, elim conjE)
    assume h: "read_input L E infile = Inr df" "COLUMN \<in> set (columns df)" and r: "rows df = []"
    show "progress_values (drop (length (emitted w)) (emitted (run L E infile outfile w))) = [100]"
      unfolding run_classifies [OF h]
      by (simp add: r Let_def emit_def multi_sheet_write_def split: sum.split option.split)
  qed
  from a b c show ?thesis by simp
qed

text \<open>
  The theorem at index 0 of 0 rows and at \<open>empty.csv\<close>.
\<close>

theorem percent_guarded_witness:
  "percent 0 0 = Inr 0 \<and>
   read_input sample_libs sample_env (ascii ''empty.csv'') = Inr table_empty \<and>
   COLUMN \<in> set (columns table_empty) \<and> rows table_empty = [] \<and>
   progress_values (emitted (run sample_libs sample_env (ascii ''empty.csv'')
                               (ascii ''out.xlsx'') world0)) = [100]"
proof -
  have r: "rows table_empty = []"
    by (simp add: table_empty_def)
  have p: "percent 0 0 = Inr 0"
    using percent_value [of 0 0] by (simp add: pct_0)
  from percent_guarded [of 0 0 sample_libs "[]" world0 sample_env "ascii ''empty.csv''"
                          table_empty "ascii ''out.xlsx''"]
  have "progress_values (drop (length (emitted world0))
          (emitted (run sample_libs sample_env (ascii ''empty.csv'') (ascii ''out.xlsx'')
                      world0))) = [100]"
    using read_samples(3) column_samples(3) r by blast
  then show ?thesis
    using p r read_samples(3) column_samples(3) by (simp add: world0_def)
qed

end
